theory Spec2Isabelle
  imports Complex_Main
begin

unbundle bit_operations_syntax

section \<open>IEC 61162-1 sentences and IEC 61162-450 messages\<close>

text \<open>
  A shallow embedding of \<^verbatim>\<open>iec_61162/part_1/sentences.py\<close> and
  \<^verbatim>\<open>iec_61162/part_450/messages.py\<close>.

  Conventions of the embedding.
  \<^item> A Python \<^verbatim>\<open>str\<close> is the list of its code points, natural numbers: a character is
    its code point, so \<^verbatim>\<open>ord\<close> and \<^verbatim>\<open>chr\<close> change nothing. Python keeps code points
    below 0x110000; no property here needs that bound. A literal of the source is written
    \<open>lit ''...''\<close>, the codes of its characters.
  \<^item> A Python \<^verbatim>\<open>int\<close> is an \<open>int\<close>; the checksum, an exclusive-or of character codes
    starting from 0, is never negative and is a \<open>nat\<close>.
  \<^item> A \<^verbatim>\<open>bitstring.BitStream\<close> is the list of its bits, first bit first.
  \<^item> An exception is a value: functions that can raise return \<open>error + 'a\<close>.
  \<^item> A class is a record. Its fields carry a prefix for the class (\<open>bbm_\<close>, \<open>vdm_\<close>,
    \<open>msg_\<close>, \<open>sg_\<close>, \<open>mg_\<close>), since several classes use the same attribute names
    and so do the local variables of the functions.
\<close>

datatype error = IndexError | ReadError

type_synonym BitStream = "bool list"

type_synonym str = "nat list"

definition lit :: "string \<Rightarrow> str" where
  "lit s = map of_char s"

subsection \<open>Python helpers\<close>

text \<open>The slice \<^verbatim>\<open>s[a:b]\<close> for indices \<open>0 \<le> a \<le> b\<close>; the end is clipped to the length.\<close>

definition slice :: "'a list \<Rightarrow> nat \<Rightarrow> nat \<Rightarrow> 'a list" where
  "slice s a b = take (b - a) (drop a s)"

subsection \<open>Helper functions\<close>

text \<open>
  \<^verbatim>\<open>iec_checksum(data)\<close>. The test \<^verbatim>\<open>data[0] in ["$", "!"]\<close> indexes the string before
  anything else, so the empty string raises \<^verbatim>\<open>IndexError\<close>. The accumulator is a Python
  integer and \<^verbatim>\<open>ord(c)\<close> is the code point \<open>c\<close>: nothing masks the result to eight bits.
\<close>

definition iec_checksum :: "str \<Rightarrow> error + nat" where
  "iec_checksum data =
     (case data of
        [] \<Rightarrow> Inl IndexError
      | c0 # rest \<Rightarrow>
          (let d = (if c0 = of_char CHR ''$'' \<or> c0 = of_char CHR ''!'' then rest
                    else data)
           in Inr (foldl (\<lambda>checksum c. checksum XOR c) 0 d)))"

text \<open>
  The token \<^verbatim>\<open>uint:6\<close> of the bitstring library reads six bits as an unsigned integer,
  most significant bit first. \<open>read_uint\<close> is the value of a run of bits read this way.
\<close>

definition read_uint :: "bool list \<Rightarrow> nat" where
  "read_uint bits = foldl (\<lambda>acc b. 2 * acc + (if b then 1 else 0)) 0 bits"

text \<open>
  \<^verbatim>\<open>bs.pos = 0; bs.readlist(n_char*'uint:6, ')\<close>: \<open>n_char\<close> tokens read one after the
  other from the start of the stream. The library raises \<^verbatim>\<open>ReadError\<close> when a token
  reaches past the end of the data.
\<close>

fun readlist_uint6 :: "nat \<Rightarrow> BitStream \<Rightarrow> error + nat list" where
  "readlist_uint6 0 bs = Inr []"
| "readlist_uint6 (Suc n) bs =
     (if length bs < 6 then Inl ReadError
      else case readlist_uint6 n (drop 6 bs) of
             Inl e \<Rightarrow> Inl e
           | Inr vs \<Rightarrow> Inr (read_uint (take 6 bs) # vs))"

text \<open>
  \<^verbatim>\<open>iec_ascii_6b_to_8b(bs)\<close>. The list of shifted values is the returned string:
  \<^verbatim>\<open>"".join(map(chr, char_lst))\<close> is the string whose code points are \<^verbatim>\<open>char_lst\<close>.
\<close>

definition iec_ascii_6b_to_8b :: "BitStream \<Rightarrow> error + str" where
  "iec_ascii_6b_to_8b bs =
     (let n_char = length bs div 6
      in case readlist_uint6 n_char bs of
           Inl e \<Rightarrow> Inl e
         | Inr char_lst \<Rightarrow>
             Inr (map (\<lambda>char. if char < 40 then char + 48 else char + 56) char_lst))"

subsection \<open>String formatting\<close>







subsection \<open>Sentence definitions\<close>

record BBMSentence =
  bbm_n_sentences :: int
  bbm_i_sentence :: int
  bbm_sequential_id :: int
  bbm_channel :: int
  bbm_msg_id :: int
  bbm_payload :: str
  bbm_n_fill_bits :: int
  bbm_talker_id :: str



record VDMSentence =
  vdm_n_sentences :: int
  vdm_i_sentence :: int
  vdm_sequential_id :: int
  vdm_channel :: str
  vdm_payload :: str
  vdm_n_fill_bits :: int
  vdm_talker_id :: str

subsection \<open>Sentence generation\<close>

text \<open>
  The first lines of \<^verbatim>\<open>asm_payload_bs_to_bbm_sentences\<close> (338 to 344) and of
  \<^verbatim>\<open>ais_msg_bs_to_vdm_sentences\<close> (263 to 268) are the same: count the fill bits, append
  them to the stream (\<^verbatim>\<open>BitStream(n)\<close> is \<open>n\<close> zero bits) and convert the padded stream.
  The source appends in place, so the caller's stream is padded too; the sentences do not
  depend on that and the model returns the payload and the fill bit count.
\<close>

definition armor :: "BitStream \<Rightarrow> error + (str \<times> int)" where
  "armor bs =
     (let n_bits = int (length bs);
          n_fill_bits = (6 - (n_bits mod 6)) mod 6;
          bs' = bs @ replicate (nat n_fill_bits) False
      in case iec_ascii_6b_to_8b bs' of
           Inl e \<Rightarrow> Inl e
         | Inr payload \<Rightarrow> Inr (payload, n_fill_bits))"

text \<open>
  \<^verbatim>\<open>ceil(len(payload) / max_payload_char)\<close>. The quotient of the source is a float; it is
  taken here as the exact quotient, which the float division and \<^verbatim>\<open>ceil\<close> agree with for
  every length a string can have.
\<close>

definition count_sentences :: "str \<Rightarrow> nat \<Rightarrow> int" where
  "count_sentences payload max_payload_char =
     \<lceil>real (length payload) / real max_payload_char\<rceil>"

text \<open>The \<^verbatim>\<open>while\<close> loop of \<^verbatim>\<open>ais_msg_bs_to_vdm_sentences\<close> (lines 284 to 301).\<close>

function vdm_while ::
  "str \<Rightarrow> nat \<Rightarrow> int \<Rightarrow> int \<Rightarrow> str \<Rightarrow> int \<Rightarrow> str
     \<Rightarrow> int \<Rightarrow> nat \<Rightarrow> VDMSentence list \<Rightarrow> VDMSentence list" where
  "vdm_while payload max_payload_char n_sentences sequential_id channel n_fill_bits talker_id
       i_sentence payload_offset sentences =
     (if i_sentence \<le> n_sentences then
        let vdm_sentence =
              \<lparr>vdm_n_sentences = n_sentences,
               vdm_i_sentence = i_sentence,
               vdm_sequential_id = sequential_id,
               vdm_channel = channel,
               vdm_payload =
                 slice payload payload_offset (payload_offset + max_payload_char),
               vdm_n_fill_bits = n_fill_bits,
               vdm_talker_id = talker_id\<rparr>
        in vdm_while payload max_payload_char n_sentences sequential_id channel n_fill_bits
             talker_id (i_sentence + 1) (payload_offset + max_payload_char)
             (sentences @ [vdm_sentence])
      else sentences)"
  by pat_completeness auto
termination
  by (relation "measure (\<lambda>(p, m, n, sid, ch, nf, tid, i, off, acc). nat (n + 1 - i))") auto

declare vdm_while.simps [simp del]

text \<open>Lines 270 to 303 of \<^verbatim>\<open>ais_msg_bs_to_vdm_sentences\<close>: the split of the payload.\<close>

definition vdm_split ::
  "str \<Rightarrow> int \<Rightarrow> str \<Rightarrow> int \<Rightarrow> str \<Rightarrow> VDMSentence list" where
  "vdm_split payload sequential_id channel n_fill_bits talker_id =
     (let max_payload_char = 60;
          n_sentences = count_sentences payload max_payload_char
      in vdm_while payload max_payload_char n_sentences sequential_id channel n_fill_bits
           talker_id 1 0 [])"

definition ais_msg_bs_to_vdm_sentences ::
  "BitStream \<Rightarrow> int \<Rightarrow> str \<Rightarrow> str \<Rightarrow> error + VDMSentence list" where
  "ais_msg_bs_to_vdm_sentences msg_bs sequential_id channel talker_id =
     (case armor msg_bs of
        Inl e \<Rightarrow> Inl e
      | Inr (payload, n_fill_bits) \<Rightarrow>
          Inr (vdm_split payload sequential_id channel n_fill_bits talker_id))"

text \<open>The \<^verbatim>\<open>while\<close> loop of \<^verbatim>\<open>asm_payload_bs_to_bbm_sentences\<close> (lines 361 to 377).\<close>

function bbm_while ::
  "str \<Rightarrow> nat \<Rightarrow> int \<Rightarrow> int \<Rightarrow> int \<Rightarrow> int \<Rightarrow> int \<Rightarrow> str
     \<Rightarrow> int \<Rightarrow> nat \<Rightarrow> BBMSentence list \<Rightarrow> BBMSentence list" where
  "bbm_while payload max_payload_char n_sentences sequential_id channel msg_id n_fill_bits
       talker_id i_sentence payload_offset sentences =
     (if i_sentence \<le> n_sentences then
        let bbm_sentence =
              \<lparr>bbm_n_sentences = n_sentences,
               bbm_i_sentence = i_sentence,
               bbm_sequential_id = sequential_id,
               bbm_channel = channel,
               bbm_msg_id = msg_id,
               bbm_payload =
                 slice payload payload_offset (payload_offset + max_payload_char),
               bbm_n_fill_bits = n_fill_bits,
               bbm_talker_id = talker_id\<rparr>
        in bbm_while payload max_payload_char n_sentences sequential_id channel msg_id
             n_fill_bits talker_id (i_sentence + 1) (payload_offset + max_payload_char)
             (sentences @ [bbm_sentence])
      else sentences)"
  by pat_completeness auto
termination
  by (relation "measure (\<lambda>(p, m, n, sid, ch, mid, nf, tid, i, off, acc). nat (n + 1 - i))")
    auto

declare bbm_while.simps [simp del]

text \<open>Lines 346 to 379 of \<^verbatim>\<open>asm_payload_bs_to_bbm_sentences\<close>: the split of the payload.\<close>

definition bbm_split ::
  "str \<Rightarrow> int \<Rightarrow> int \<Rightarrow> int \<Rightarrow> int \<Rightarrow> str \<Rightarrow> BBMSentence list" where
  "bbm_split payload sequential_id channel msg_id n_fill_bits talker_id =
     (let max_payload_char = 57;
          n_sentences = count_sentences payload max_payload_char
      in bbm_while payload max_payload_char n_sentences sequential_id channel msg_id
           n_fill_bits talker_id 1 0 [])"

definition asm_payload_bs_to_bbm_sentences ::
  "BitStream \<Rightarrow> int \<Rightarrow> int \<Rightarrow> int \<Rightarrow> str \<Rightarrow> error + BBMSentence list" where
  "asm_payload_bs_to_bbm_sentences bs sequential_id channel msg_id talker_id =
     (case armor bs of
        Inl e \<Rightarrow> Inl e
      | Inr (payload, n_fill_bits) \<Rightarrow>
          Inr (bbm_split payload sequential_id channel msg_id n_fill_bits talker_id))"

record SentenceGenerator =
  sg_talker_id :: str
  sg_vdm_sequential_id :: int
  sg_bbm_sequential_id :: int

text \<open>\<^verbatim>\<open>SentenceGenerator.__init__\<close>.\<close>

definition SentenceGenerator_init :: "str \<Rightarrow> SentenceGenerator" where
  "SentenceGenerator_init talker_id =
     \<lparr>sg_talker_id = talker_id, sg_vdm_sequential_id = 0, sg_bbm_sequential_id = 0\<rparr>"

text \<open>
  \<^verbatim>\<open>SentenceGenerator.generate_bbm\<close>: the returned list of groups, and the generator
  after the call.
\<close>

definition generate_bbm ::
  "SentenceGenerator \<Rightarrow> BitStream \<Rightarrow> int \<Rightarrow> int
     \<Rightarrow> error + (BBMSentence list list \<times> SentenceGenerator)" where
  "generate_bbm self asm_payload_bs channel msg_id =
     (case asm_payload_bs_to_bbm_sentences asm_payload_bs (sg_bbm_sequential_id self) channel
             msg_id (sg_talker_id self) of
        Inl e \<Rightarrow> Inl e
      | Inr bbm_sentences \<Rightarrow>
          Inr ([bbm_sentences],
               if length bbm_sentences > 1
               then self\<lparr>sg_bbm_sequential_id := (sg_bbm_sequential_id self + 1) mod 10\<rparr>
               else self))"

subsection \<open>IEC 61162-450 messages\<close>

record 'a IEC61162450Message =
  msg_i_sentence :: int
  msg_n_sentences :: int
  msg_group_id :: int
  msg_source_id :: str
  msg_sentence :: 'a

record MessageGenerator =
  mg_source_id :: str
  mg_group_id :: int

text \<open>\<^verbatim>\<open>MessageGenerator.__init__\<close>.\<close>

definition MessageGenerator_init :: "str \<Rightarrow> MessageGenerator" where
  "MessageGenerator_init source_id = \<lparr>mg_source_id = source_id, mg_group_id = 0\<rparr>"

text \<open>The inner loop of \<^verbatim>\<open>generate_msg\<close> (lines 160 to 170), over the sentences of a group.\<close>

fun generate_msg_group ::
  "MessageGenerator \<Rightarrow> int \<Rightarrow> 'a list \<Rightarrow> int \<Rightarrow> 'a IEC61162450Message list
     \<Rightarrow> 'a IEC61162450Message list" where
  "generate_msg_group self n_sentences [] i_sentence messages = messages"
| "generate_msg_group self n_sentences (sentence # rest) i_sentence messages =
     (let iec_msg =
            \<lparr>msg_i_sentence = i_sentence,
             msg_n_sentences = n_sentences,
             msg_group_id = mg_group_id self,
             msg_source_id = mg_source_id self,
             msg_sentence = sentence\<rparr>
      in generate_msg_group self n_sentences rest (i_sentence + 1) (messages @ [iec_msg]))"

text \<open>The outer loop (lines 152 to 170), over the groups.\<close>

fun generate_msg_groups ::
  "MessageGenerator \<Rightarrow> 'a list list \<Rightarrow> 'a IEC61162450Message list
     \<Rightarrow> 'a IEC61162450Message list \<times> MessageGenerator" where
  "generate_msg_groups self [] messages = (messages, self)"
| "generate_msg_groups self (group' # rest) messages =
     (let self1 = self\<lparr>mg_group_id := mg_group_id self + 1\<rparr>;
          self2 = (if mg_group_id self1 > 99
                   then self1\<lparr>mg_group_id := 1\<rparr> else self1);
          i_sentence = 1;
          n_sentences = int (length group')
      in generate_msg_groups self2 rest
           (generate_msg_group self2 n_sentences group' i_sentence messages))"

text \<open>
  \<^verbatim>\<open>MessageGenerator.generate_msg\<close>: the returned messages, and the generator after the
  call.
\<close>

definition generate_msg ::
  "MessageGenerator \<Rightarrow> 'a list list \<Rightarrow> 'a IEC61162450Message list \<times> MessageGenerator" where
  "generate_msg self sentences = generate_msg_groups self sentences []"

text \<open>A sequence of calls on one generator: the messages of each call, and the generator
  after the last.\<close>

fun generate_msg_calls ::
  "MessageGenerator \<Rightarrow> 'a list list list
     \<Rightarrow> 'a IEC61162450Message list list \<times> MessageGenerator" where
  "generate_msg_calls self [] = ([], self)"
| "generate_msg_calls self (sentences # calls) =
     (let (messages, self1) = generate_msg self sentences;
          (outs, self2) = generate_msg_calls self1 calls
      in (messages # outs, self2))"

text \<open>The exclusive-or of the character codes of a string.\<close>

primrec xor_codes :: "str \<Rightarrow> nat" where
  "xor_codes [] = 0"
| "xor_codes (c # cs) = c XOR xor_codes cs"

text \<open>
  The group id after one step of the outer loop of \<^verbatim>\<open>generate_msg\<close> (lines 153 to 155),
  used to state how often the counter has advanced.
\<close>

definition next_group_id :: "int \<Rightarrow> int" where
  "next_group_id g = (if g + 1 > 99 then 1 else g + 1)"

subsection \<open>Decimal numerals\<close>




subsection \<open>Sample data\<close>

text \<open>
  The sample data of the source (line 475) is \<^verbatim>\<open>BitStream("0x123456789ABCDEF"*15)\<close>: the
  bit stream made from a string, the literal \<^verbatim>\<open>0x123456789ABCDEF\<close> written fifteen times in
  a row. Modelled from the bitstring library: a string that begins with \<^verbatim>\<open>0x\<close> is read as
  hexadecimal, every \<^verbatim>\<open>0x\<close> in it is dropped, and each remaining digit gives four bits,
  most significant first.
\<close>

fun remove_0x :: "str \<Rightarrow> str" where
  "remove_0x (a # b # rest) =
     (if a = of_char CHR ''0'' \<and> b = of_char CHR ''x'' then remove_0x rest
      else a # remove_0x (b # rest))"
| "remove_0x s = s"

definition hex_value :: "nat \<Rightarrow> nat" where
  "hex_value c =
     (if 48 \<le> c \<and> c \<le> 57 then c - 48
      else if 65 \<le> c \<and> c \<le> 70 then c - 55
      else c - 87)"

definition hex_digit_bits :: "nat \<Rightarrow> BitStream" where
  "hex_digit_bits c =
     (let v = hex_value c
      in [v div 8 mod 2 = 1, v div 4 mod 2 = 1, v div 2 mod 2 = 1, v mod 2 = 1])"

definition BitStream_hex :: "str \<Rightarrow> BitStream" where
  "BitStream_hex s = concat (map hex_digit_bits (remove_0x s))"

definition asm_payload_bs_sample :: BitStream where
  "asm_payload_bs_sample = BitStream_hex (concat (replicate 15 (lit ''0x123456789ABCDEF'')))"

section \<open>Properties\<close>

subsection \<open>Literals\<close>

lemma lit_simps:
  "lit [] = []"
  "lit (c # cs) = of_char c # lit cs"
  by (simp_all add: lit_def)

subsection \<open>The checksum\<close>

lemma foldl_xor_codes:
  "foldl (\<lambda>checksum c. checksum XOR c) acc d = acc XOR xor_codes d"
  by (induction d arbitrary: acc) (simp_all add: xor.assoc)

lemma xor_codes_append: "xor_codes (a @ b) = xor_codes a XOR xor_codes b"
  by (induction a) (simp_all add: xor.assoc)

lemma xor_lt_256:
  assumes "(a::nat) < 256" and "b < 256"
  shows "a XOR b < 256"
proof -
  have a: "take_bit 8 a = a" and b: "take_bit 8 b = b"
    using assms by (simp_all add: take_bit_nat_eq_self_iff)
  have "take_bit 8 (a XOR b) = a XOR b"
    by (simp add: a b)
  then have "a XOR b < 2 ^ 8"
    using take_bit_nat_eq_self_iff [of 8 "a XOR b"] by blast
  then show ?thesis by simp
qed

lemma xor_codes_lt_256: "\<forall>c\<in>set d. c < 256 \<Longrightarrow> xor_codes d < 256"
  by (induction d) (simp_all add: xor_lt_256)

lemma iec_checksum_Cons:
  "iec_checksum (c0 # rest) =
     Inr (xor_codes (if c0 = of_char CHR ''$'' \<or> c0 = of_char CHR ''!'' then rest
                     else c0 # rest))"
  by (simp add: iec_checksum_def foldl_xor_codes del: foldl_Cons)

lemma iec_checksum_plain:
  assumes "a \<noteq> []" and "hd a \<noteq> of_char CHR ''$''" and "hd a \<noteq> of_char CHR ''!''"
  shows "iec_checksum a = Inr (xor_codes a)"
  using assms by (cases a) (simp_all add: iec_checksum_Cons)

text \<open>
  On every string but the empty one the checksum returns, and it returns the exclusive-or
  of the codes that follow a leading \<^verbatim>\<open>$\<close> or \<^verbatim>\<open>!\<close>. The accumulator is a Python integer
  and is never masked: the result is below 256 when every code is. A string that is only
  the sentinel has checksum 0.
\<close>

lemma iec_checksum_nonempty:
  "data \<noteq> [] \<Longrightarrow> \<exists>checksum. iec_checksum data = Inr checksum"
  by (cases data) (simp_all add: iec_checksum_Cons del: xor_codes.simps)

lemma iec_checksum_8bit:
  assumes "data \<noteq> []" and "\<forall>c\<in>set data. c < 256"
  shows "\<exists>checksum. iec_checksum data = Inr checksum \<and> checksum < 256"
proof -
  from assms(1) obtain c0 rest where d: "data = c0 # rest"
    by (cases data) auto
  have "xor_codes rest < 256" "xor_codes (c0 # rest) < 256"
    using assms(2) unfolding d by (simp_all add: xor_codes_lt_256 del: xor_codes.simps)
  then show ?thesis
    unfolding d by (simp add: iec_checksum_Cons del: xor_codes.simps)
qed

lemma iec_checksum_sentinel_only:
  "iec_checksum (lit ''$'') = Inr 0" "iec_checksum (lit ''!'') = Inr 0"
  by (simp_all add: iec_checksum_def lit_simps)

text \<open>
  C6. The claim: the checksum never fails on any string, and an input that is empty after
  stripping, the fully empty input included, gives 0. On the empty string the source
  evaluates \<^verbatim>\<open>data[0]\<close> first, which raises \<^verbatim>\<open>IndexError\<close>: the checksum of the empty string
  is an error, not 0.
\<close>

theorem iec_checksum_empty_raises: "iec_checksum [] = Inl IndexError"
  by (simp add: iec_checksum_def)

lemma checksum_concat_plain_right:
  assumes "a \<noteq> []" and "b \<noteq> []"
    and "hd b \<notin> {of_char CHR ''$'', of_char CHR ''!''}"
  shows "\<exists>x y. iec_checksum a = Inr x \<and> iec_checksum b = Inr y \<and>
               iec_checksum (a @ b) = Inr (x XOR y)"
proof -
  from assms(1) obtain c0 rest where a: "a = c0 # rest"
    by (cases a) auto
  have b: "iec_checksum b = Inr (xor_codes b)"
    using assms(2,3) by (intro iec_checksum_plain) simp_all
  show ?thesis
    unfolding a b
    by (simp add: iec_checksum_Cons xor_codes_append xor.assoc)
qed

lemma checksum_concat_sentinel_right:
  assumes "a \<noteq> []" and "c = of_char CHR ''$'' \<or> c = of_char CHR ''!''"
    and "iec_checksum a = Inr x" and "iec_checksum (c # rest) = Inr y"
  shows "\<exists>z. iec_checksum (a @ c # rest) = Inr z \<and> z \<noteq> x XOR y"
proof -
  from assms(1) obtain c0 rest0 where a: "a = c0 # rest0"
    by (cases a) auto
  have y: "y = xor_codes rest"
    using assms(2,4) by (auto simp add: iec_checksum_Cons)
  have z: "iec_checksum (a @ c # rest) = Inr (x XOR (c XOR y))"
    using assms(3) unfolding a y
    by (auto simp add: iec_checksum_Cons xor_codes_append xor.assoc split: if_splits)
  have nz: "c \<noteq> 0"
    using assms(2) by auto
  have "x XOR (c XOR y) \<noteq> x XOR y"
  proof
    assume "x XOR (c XOR y) = x XOR y"
    then have "(x XOR y) XOR c = (x XOR y) XOR 0"
      by (simp add: xor.assoc xor.left_commute xor.commute)
    then have "(x XOR y) XOR ((x XOR y) XOR c) = (x XOR y) XOR ((x XOR y) XOR 0)"
      by (rule arg_cong)
    then have "c = 0"
      by (simp only: xor.assoc [symmetric] xor_self_eq xor.left_neutral)
    with nz show False ..
  qed
  with z show ?thesis
    by simp
qed

text \<open>
  C9. The claim: for non-empty \<open>a\<close> and \<open>b\<close> that do not begin with \<^verbatim>\<open>$\<close> or \<^verbatim>\<open>!\<close> the
  checksum of \<open>a @ b\<close> is the exclusive-or of the checksums of \<open>a\<close> and \<open>b\<close>, and when \<open>a\<close>
  begins with a sentinel that is stripped the equation need not hold. The second half is
  not so: the sentinel of \<open>a\<close> is stripped from \<open>a\<close> and from \<open>a @ b\<close> alike. As amended: for
  all non-empty \<open>a\<close> and \<open>b\<close>, if \<open>b\<close> does not begin with \<^verbatim>\<open>$\<close> or \<^verbatim>\<open>!\<close> the equation holds,
  whether \<open>a\<close> begins with a sentinel or not; if \<open>b\<close> begins with one, which is stripped
  from the checksum of \<open>b\<close> and not from that of \<open>a @ b\<close>, the three checksums exist and the
  equation is false.
\<close>

theorem checksum_of_concatenation:
  "(a \<noteq> [] \<and> b \<noteq> [] \<and> hd b \<notin> {of_char CHR ''$'', of_char CHR ''!''} \<longrightarrow>
      (\<exists>x y. iec_checksum a = Inr x \<and> iec_checksum b = Inr y \<and>
             iec_checksum (a @ b) = Inr (x XOR y)))
   \<and> (a \<noteq> [] \<and> b \<noteq> [] \<and> hd b \<in> {of_char CHR ''$'', of_char CHR ''!''} \<longrightarrow>
      (\<exists>x y z. iec_checksum a = Inr x \<and> iec_checksum b = Inr y \<and>
               iec_checksum (a @ b) = Inr z \<and> z \<noteq> x XOR y))"
proof (intro conjI impI)
  assume "a \<noteq> [] \<and> b \<noteq> [] \<and> hd b \<notin> {of_char CHR ''$'', of_char CHR ''!''}"
  then show "\<exists>x y. iec_checksum a = Inr x \<and> iec_checksum b = Inr y \<and>
             iec_checksum (a @ b) = Inr (x XOR y)"
    by (intro checksum_concat_plain_right) simp_all
next
  assume h: "a \<noteq> [] \<and> b \<noteq> [] \<and> hd b \<in> {of_char CHR ''$'', of_char CHR ''!''}"
  then obtain c rest where b: "b = c # rest"
    and c: "c = of_char CHR ''$'' \<or> c = of_char CHR ''!''"
    by (cases b) auto
  from h obtain x where x: "iec_checksum a = Inr x"
    using iec_checksum_nonempty by blast
  obtain y where y: "iec_checksum (c # rest) = Inr y"
    using iec_checksum_nonempty [of "c # rest"] by auto
  from h have "a \<noteq> []" by simp
  from checksum_concat_sentinel_right [OF this c x y] x y
  show "\<exists>x y z. iec_checksum a = Inr x \<and> iec_checksum b = Inr y \<and>
               iec_checksum (a @ b) = Inr z \<and> z \<noteq> x XOR y"
    unfolding b by blast
qed

theorem checksum_of_concatenation_witness:
  "(lit ''$A'' \<noteq> [] \<and> lit ''B'' \<noteq> []
      \<and> hd (lit ''B'') \<notin> {of_char CHR ''$'', of_char CHR ''!''})
   \<and> (\<exists>x y. iec_checksum (lit ''$A'') = Inr x \<and> iec_checksum (lit ''B'') = Inr y \<and>
             iec_checksum (lit ''$A'' @ lit ''B'') = Inr (x XOR y))
   \<and> (lit ''A'' \<noteq> [] \<and> lit ''$B'' \<noteq> []
      \<and> hd (lit ''$B'') \<in> {of_char CHR ''$'', of_char CHR ''!''})
   \<and> (\<exists>x y z. iec_checksum (lit ''A'') = Inr x \<and> iec_checksum (lit ''$B'') = Inr y \<and>
             iec_checksum (lit ''A'' @ lit ''$B'') = Inr z \<and> z \<noteq> x XOR y)"
  using checksum_of_concatenation [of "lit ''$A''" "lit ''B''"]
    checksum_of_concatenation [of "lit ''A''" "lit ''$B''"]
  by (simp add: lit_simps)

text \<open>
  The second half of the claim as stated fails: no non-empty \<open>a\<close> with a leading sentinel
  and non-empty \<open>b\<close> without one break the equation. For instance the checksums of
  \<^verbatim>\<open>$A\<close>, \<^verbatim>\<open>B\<close> and \<^verbatim>\<open>$AB\<close> are 65, 66 and the exclusive-or of the two.
\<close>

theorem checksum_left_sentinel_counterexample:
  "\<not> (\<exists>a b x y z. a \<noteq> [] \<and> b \<noteq> []
          \<and> hd a \<in> {of_char CHR ''$'', of_char CHR ''!''}
          \<and> hd b \<notin> {of_char CHR ''$'', of_char CHR ''!''}
          \<and> iec_checksum a = Inr x \<and> iec_checksum b = Inr y
          \<and> iec_checksum (a @ b) = Inr z \<and> z \<noteq> x XOR y)
   \<and> iec_checksum (lit ''$A'') = Inr 65
   \<and> iec_checksum (lit ''B'') = Inr 66
   \<and> iec_checksum (lit ''$A'' @ lit ''B'') = Inr (65 XOR 66)"
proof (intro conjI notI)
  assume "\<exists>a b x y z. a \<noteq> [] \<and> b \<noteq> []
          \<and> hd a \<in> {of_char CHR ''$'', of_char CHR ''!''}
          \<and> hd b \<notin> {of_char CHR ''$'', of_char CHR ''!''}
          \<and> iec_checksum a = Inr x \<and> iec_checksum b = Inr y
          \<and> iec_checksum (a @ b) = Inr z \<and> z \<noteq> x XOR y"
  then obtain a b x y z where ab: "a \<noteq> []" "b \<noteq> []"
      "hd b \<notin> {of_char CHR ''$'', of_char CHR ''!''}"
    and c: "iec_checksum a = Inr x" "iec_checksum b = Inr y" "iec_checksum (a @ b) = Inr z"
    and ne: "z \<noteq> x XOR y"
    by blast
  from checksum_concat_plain_right [OF ab] c have "z = x XOR y"
    by auto
  with ne show False ..
qed (simp_all add: iec_checksum_def lit_simps)

subsection \<open>The split of a payload\<close>

lemma upt_Suc_shift: "[0..<Suc j] = 0 # map Suc [0..<j]"
  by (simp add: upt_conv_Cons map_Suc_upt del: upt_Suc)

lemma count_sentences_eq:
  assumes "0 < m"
  shows "count_sentences payload m = int ((length payload + m - 1) div m)"
proof -
  have "\<lceil>real (length payload) / real m\<rceil>
          = \<lceil>real_of_int (int (length payload)) / real_of_int (int m)\<rceil>"
    by simp
  also have "\<dots> = - (- int (length payload) div int m)"
    by (rule ceiling_divide_eq_div)
  also have "\<dots> = int ((length payload + m - 1) div m)"
  proof -
    define n where "n = length payload"
    define q where "q = (n + m - 1) div m"
    define r where "r = (n + m - 1) mod m"
    have eq: "n + m - 1 = q * m + r" and r: "r < m"
      using assms by (simp_all add: q_def r_def)
    have "- int n = (- int q) * int m + (int m - 1 - int r)"
    proof -
      have "int (n + m - 1) = int (q * m + r)"
        using eq by simp
      then have "int n + int m - 1 = int q * int m + int r"
        using assms by (simp add: of_nat_diff)
      then show ?thesis by (simp add: algebra_simps)
    qed
    moreover have "0 \<le> int m - 1 - int r" "int m - 1 - int r < int m"
      using r by simp_all
    ultimately have "- int n div int m = - int q"
      by (metis div_pos_pos_trivial add.commute of_nat_0_less_iff assms less_int_code(1)
            div_mult_self1 add.right_neutral)
    then show ?thesis by (simp add: n_def q_def)
  qed
  finally show ?thesis by (simp add: count_sentences_def)
qed

lemma bbm_while_eq:
  "bbm_while payload m n sequential_id channel msg_id n_fill_bits talker_id i off acc =
     acc @ map (\<lambda>k. \<lparr>bbm_n_sentences = n, bbm_i_sentence = i + int k,
                       bbm_sequential_id = sequential_id, bbm_channel = channel,
                       bbm_msg_id = msg_id,
                       bbm_payload = slice payload (off + k * m) (off + k * m + m),
                       bbm_n_fill_bits = n_fill_bits, bbm_talker_id = talker_id\<rparr>)
               [0..<nat (n + 1 - i)]"
proof (induction payload m n sequential_id channel msg_id n_fill_bits talker_id i off acc
       rule: bbm_while.induct)
  case (1 payload m n sequential_id channel msg_id n_fill_bits talker_id i off acc)
  show ?case
  proof (cases "i \<le> n")
    case True
    then have len: "nat (n + 1 - i) = Suc (nat (n + 1 - (i + 1)))"
      by simp
    show ?thesis
      using True
      apply (subst bbm_while.simps)
      apply (simp only: if_True Let_def "1.IH" [OF True refl] len upt_Suc_shift)
      apply (simp add: comp_def add.assoc add.left_commute)
      done
  next
    case False
    then show ?thesis
      by (subst bbm_while.simps) simp
  qed
qed

lemma vdm_while_eq:
  "vdm_while payload m n sequential_id channel n_fill_bits talker_id i off acc =
     acc @ map (\<lambda>k. \<lparr>vdm_n_sentences = n, vdm_i_sentence = i + int k,
                       vdm_sequential_id = sequential_id, vdm_channel = channel,
                       vdm_payload = slice payload (off + k * m) (off + k * m + m),
                       vdm_n_fill_bits = n_fill_bits, vdm_talker_id = talker_id\<rparr>)
               [0..<nat (n + 1 - i)]"
proof (induction payload m n sequential_id channel n_fill_bits talker_id i off acc
       rule: vdm_while.induct)
  case (1 payload m n sequential_id channel n_fill_bits talker_id i off acc)
  show ?case
  proof (cases "i \<le> n")
    case True
    then have len: "nat (n + 1 - i) = Suc (nat (n + 1 - (i + 1)))"
      by simp
    show ?thesis
      using True
      apply (subst vdm_while.simps)
      apply (simp only: if_True Let_def "1.IH" [OF True refl] len upt_Suc_shift)
      apply (simp add: comp_def add.assoc add.left_commute)
      done
  next
    case False
    then show ?thesis
      by (subst vdm_while.simps) simp
  qed
qed

lemma bbm_split_eq:
  "bbm_split payload sequential_id channel msg_id n_fill_bits talker_id =
     map (\<lambda>k. \<lparr>bbm_n_sentences = int ((length payload + 56) div 57),
                 bbm_i_sentence = 1 + int k,
                 bbm_sequential_id = sequential_id, bbm_channel = channel,
                 bbm_msg_id = msg_id,
                 bbm_payload = slice payload (k * 57) (k * 57 + 57),
                 bbm_n_fill_bits = n_fill_bits, bbm_talker_id = talker_id\<rparr>)
         [0..<(length payload + 56) div 57]"
  by (simp add: bbm_split_def bbm_while_eq count_sentences_eq add.commute)

lemma vdm_split_eq:
  "vdm_split payload sequential_id channel n_fill_bits talker_id =
     map (\<lambda>k. \<lparr>vdm_n_sentences = int ((length payload + 59) div 60),
                 vdm_i_sentence = 1 + int k,
                 vdm_sequential_id = sequential_id, vdm_channel = channel,
                 vdm_payload = slice payload (k * 60) (k * 60 + 60),
                 vdm_n_fill_bits = n_fill_bits, vdm_talker_id = talker_id\<rparr>)
         [0..<(length payload + 59) div 60]"
  by (simp add: vdm_split_def vdm_while_eq count_sentences_eq add.commute)

lemma concat_slices:
  "concat (map (\<lambda>k. slice s (k * m) (k * m + m)) [0..<n]) = take (n * m) s"
proof (induction n)
  case 0
  then show ?case by simp
next
  case (Suc n)
  have "take (n * m) s @ take m (drop (n * m) s) = take (n * m + m) s"
    by (simp add: take_add)
  with Suc show ?case
    by (simp add: slice_def add.commute)
qed

lemma ceil_div_covers:
  assumes "0 < (m::nat)"
  shows "n \<le> ((n + m - 1) div m) * m"
proof -
  have "n + m - 1 = ((n + m - 1) div m) * m + (n + m - 1) mod m"
    by simp
  moreover have "(n + m - 1) mod m < m"
    using assms by simp
  ultimately show ?thesis by linarith
qed

lemma ceil_div_least:
  assumes "0 < (m::nat)" and "Suc k < (n + m - 1) div m"
  shows "k * m + m \<le> n"
proof -
  have "Suc (Suc k) \<le> (n + m - 1) div m"
    using assms by simp
  then have "Suc (Suc k) * m \<le> ((n + m - 1) div m) * m"
    by (rule mult_le_mono1)
  also have "\<dots> \<le> n + m - 1"
    by simp
  finally show ?thesis using assms by simp
qed

lemma length_slice_full:
  "b \<le> length s \<Longrightarrow> length (slice s a b) = b - a"
  by (simp add: slice_def)


lemma bbm_split_payloads:
  "map bbm_payload (bbm_split payload sequential_id channel msg_id n_fill_bits talker_id) =
     map (\<lambda>k. slice payload (k * 57) (k * 57 + 57)) [0..<(length payload + 56) div 57]"
  by (simp add: bbm_split_eq comp_def)

lemma vdm_split_payloads:
  "map vdm_payload (vdm_split payload sequential_id channel n_fill_bits talker_id) =
     map (\<lambda>k. slice payload (k * 60) (k * 60 + 60)) [0..<(length payload + 59) div 60]"
  by (simp add: vdm_split_eq comp_def)

lemma concat_bbm_split:
  "concat (map bbm_payload (bbm_split payload sequential_id channel msg_id n_fill_bits talker_id))
     = payload"
  using ceil_div_covers [of 57 "length payload"]
  by (simp add: bbm_split_payloads concat_slices)

lemma concat_vdm_split:
  "concat (map vdm_payload (vdm_split payload sequential_id channel n_fill_bits talker_id))
     = payload"
  using ceil_div_covers [of 60 "length payload"]
  by (simp add: vdm_split_payloads concat_slices)

text \<open>
  C3. For every payload string and the maximum of the sentence type (57 for BBM, 60 for
  VDM): the number of sentences is the ceiling of length / maximum; sentence \<open>i\<close>, counted
  from 1, carries the slice from \<open>(i - 1) * maximum\<close> to \<open>i * maximum\<close> (and the number \<open>i\<close>
  and the total count); every sentence but the last carries exactly the maximum number of
  characters; and the payloads of the sentences, concatenated in order, are the payload.
\<close>

theorem split_payload:
  "(let ss = bbm_split payload sequential_id channel msg_id n_fill_bits talker_id
    in int (length ss) = \<lceil>real (length payload) / 57\<rceil>
       \<and> (\<forall>i. 1 \<le> i \<and> i \<le> length ss \<longrightarrow>
              bbm_payload (ss ! (i - 1)) = slice payload ((i - 1) * 57) (i * 57)
              \<and> bbm_i_sentence (ss ! (i - 1)) = int i
              \<and> bbm_n_sentences (ss ! (i - 1)) = int (length ss))
       \<and> (\<forall>i. 1 \<le> i \<and> i < length ss \<longrightarrow> length (bbm_payload (ss ! (i - 1))) = 57)
       \<and> concat (map bbm_payload ss) = payload)
   \<and> (let ss = vdm_split payload sequential_id channel' n_fill_bits talker_id
      in int (length ss) = \<lceil>real (length payload) / 60\<rceil>
       \<and> (\<forall>i. 1 \<le> i \<and> i \<le> length ss \<longrightarrow>
              vdm_payload (ss ! (i - 1)) = slice payload ((i - 1) * 60) (i * 60)
              \<and> vdm_i_sentence (ss ! (i - 1)) = int i
              \<and> vdm_n_sentences (ss ! (i - 1)) = int (length ss))
       \<and> (\<forall>i. 1 \<le> i \<and> i < length ss \<longrightarrow> length (vdm_payload (ss ! (i - 1))) = 60)
       \<and> concat (map vdm_payload ss) = payload)"
proof -
  let ?bbm = "bbm_split payload sequential_id channel msg_id n_fill_bits talker_id"
  let ?vdm = "vdm_split payload sequential_id channel' n_fill_bits talker_id"
  have lb: "length ?bbm = (length payload + 56) div 57"
    by (simp add: bbm_split_eq)
  have lv: "length ?vdm = (length payload + 59) div 60"
    by (simp add: vdm_split_eq)
  have cb: "int (length ?bbm) = \<lceil>real (length payload) / 57\<rceil>"
    using count_sentences_eq [of 57 payload] by (simp add: lb count_sentences_def)
  have cv: "int (length ?vdm) = \<lceil>real (length payload) / 60\<rceil>"
    using count_sentences_eq [of 60 payload] by (simp add: lv count_sentences_def)
  have fb: "bbm_payload (?bbm ! (i - 1)) = slice payload ((i - 1) * 57) (i * 57)
              \<and> bbm_i_sentence (?bbm ! (i - 1)) = int i
              \<and> bbm_n_sentences (?bbm ! (i - 1)) = int (length ?bbm)"
    if "1 \<le> i \<and> i \<le> length ?bbm" for i
  proof -
    from that have k: "i - 1 < (length payload + 56) div 57" and i: "i = Suc (i - 1)"
      unfolding lb by linarith+
    have "(i - 1) * 57 + 57 = i * 57"
      using i by (metis mult_Suc add.commute)
    then show ?thesis
      using k i by (simp add: bbm_split_eq)
  qed
  have fv: "vdm_payload (?vdm ! (i - 1)) = slice payload ((i - 1) * 60) (i * 60)
              \<and> vdm_i_sentence (?vdm ! (i - 1)) = int i
              \<and> vdm_n_sentences (?vdm ! (i - 1)) = int (length ?vdm)"
    if "1 \<le> i \<and> i \<le> length ?vdm" for i
  proof -
    from that have k: "i - 1 < (length payload + 59) div 60" and i: "i = Suc (i - 1)"
      unfolding lv by linarith+
    have "(i - 1) * 60 + 60 = i * 60"
      using i by (metis mult_Suc add.commute)
    then show ?thesis
      using k i by (simp add: vdm_split_eq)
  qed
  have nb: "length (bbm_payload (?bbm ! (i - 1))) = 57" if "1 \<le> i \<and> i < length ?bbm" for i
  proof -
    from that have i: "i = Suc (i - 1)" and lt: "Suc (i - 1) < (length payload + 57 - 1) div 57"
      unfolding lb by (simp_all add: add.commute)
    have "(i - 1) * 57 + 57 \<le> length payload"
      using lt by (intro ceil_div_least) simp_all
    moreover have "(i - 1) * 57 + 57 = i * 57"
      using i by (metis mult_Suc add.commute)
    ultimately have "length (slice payload ((i - 1) * 57) (i * 57)) = i * 57 - (i - 1) * 57"
      by (intro length_slice_full) simp
    also have "\<dots> = 57"
      using \<open>(i - 1) * 57 + 57 = i * 57\<close> by linarith
    finally show ?thesis
      using fb [of i] that by simp
  qed
  have nv: "length (vdm_payload (?vdm ! (i - 1))) = 60" if "1 \<le> i \<and> i < length ?vdm" for i
  proof -
    from that have i: "i = Suc (i - 1)" and lt: "Suc (i - 1) < (length payload + 60 - 1) div 60"
      unfolding lv by (simp_all add: add.commute)
    have "(i - 1) * 60 + 60 \<le> length payload"
      using lt by (intro ceil_div_least) simp_all
    moreover have "(i - 1) * 60 + 60 = i * 60"
      using i by (metis mult_Suc add.commute)
    ultimately have "length (slice payload ((i - 1) * 60) (i * 60)) = i * 60 - (i - 1) * 60"
      by (intro length_slice_full) simp
    also have "\<dots> = 60"
      using \<open>(i - 1) * 60 + 60 = i * 60\<close> by linarith
    finally show ?thesis
      using fv [of i] that by simp
  qed
  show ?thesis
    unfolding Let_def
    using cb cv fb fv nb nv
    by (intro conjI allI impI concat_bbm_split concat_vdm_split) blast+
qed

theorem split_payload_witness:
  "length (bbm_split (replicate 100 (119::nat)) 0 1 8 2 (lit ''AI'')) = 2
   \<and> bbm_payload (bbm_split (replicate 100 (119::nat)) 0 1 8 2 (lit ''AI'') ! 0) = replicate 57 (119::nat)
   \<and> bbm_payload (bbm_split (replicate 100 (119::nat)) 0 1 8 2 (lit ''AI'') ! 1) = replicate 43 (119::nat)
   \<and> length (vdm_split (replicate 100 (119::nat)) 0 (lit ''A'') 2 (lit ''AI'')) = 2
   \<and> vdm_payload (vdm_split (replicate 100 (119::nat)) 0 (lit ''A'') 2 (lit ''AI'') ! 0) = replicate 60 (119::nat)
   \<and> vdm_payload (vdm_split (replicate 100 (119::nat)) 0 (lit ''A'') 2 (lit ''AI'') ! 1) = replicate 40 (119::nat)"
proof -
  note t = split_payload [of "replicate 100 (119::nat)" 0 1 8 2 "(lit ''AI'')" "(lit ''A'')", unfolded Let_def]
  have lb: "length (bbm_split (replicate 100 (119::nat)) 0 1 8 2 (lit ''AI'')) = 2"
    using t by simp
  have lv: "length (vdm_split (replicate 100 (119::nat)) 0 (lit ''A'') 2 (lit ''AI'')) = 2"
    using t by simp
  from t have b: "\<And>i. 1 \<le> i \<and> i \<le> length (bbm_split (replicate 100 (119::nat)) 0 1 8 2 (lit ''AI'')) \<Longrightarrow>
      bbm_payload (bbm_split (replicate 100 (119::nat)) 0 1 8 2 (lit ''AI'') ! (i - 1))
        = slice (replicate 100 (119::nat)) ((i - 1) * 57) (i * 57)"
    by blast
  from t have v: "\<And>i. 1 \<le> i \<and> i \<le> length (vdm_split (replicate 100 (119::nat)) 0 (lit ''A'') 2 (lit ''AI'')) \<Longrightarrow>
      vdm_payload (vdm_split (replicate 100 (119::nat)) 0 (lit ''A'') 2 (lit ''AI'') ! (i - 1))
        = slice (replicate 100 (119::nat)) ((i - 1) * 60) (i * 60)"
    by blast
  show ?thesis
    using b [of 1] b [of 2] v [of 1] v [of 2]
    by (simp add: lb lv slice_def)
qed

subsection \<open>Armouring\<close>

lemma read_uint_snoc: "read_uint (bits @ [b]) = 2 * read_uint bits + (if b then 1 else 0)"
  by (simp add: read_uint_def)

lemma read_uint_lt: "read_uint bits < 2 ^ length bits"
proof (induction bits rule: rev_induct)
  case Nil
  then show ?case by (simp add: read_uint_def)
next
  case (snoc b bits)
  then show ?case by (simp add: read_uint_snoc)
qed

lemma read_uint_sum:
  "read_uint bits = (\<Sum>j<length bits. if bits ! j then 2 ^ (length bits - 1 - j) else 0)"
proof (induction bits rule: rev_induct)
  case Nil
  then show ?case by (simp add: read_uint_def)
next
  case (snoc b bits)
  let ?n = "length bits"
  have "(\<Sum>j<?n. if (bits @ [b]) ! j then 2 ^ (?n - j) else 0)
          = (\<Sum>j<?n. 2 * (if bits ! j then 2 ^ (?n - 1 - j) else (0::nat)))"
  proof (rule sum.cong [OF refl])
    fix j assume "j \<in> {..<?n}"
    then have j: "j < ?n" by simp
    then have "?n - j = Suc (?n - 1 - j)" by simp
    then show "(if (bits @ [b]) ! j then 2 ^ (?n - j) else 0)
                 = 2 * (if bits ! j then 2 ^ (?n - 1 - j) else (0::nat))"
      using j by (simp add: nth_append)
  qed
  also have "\<dots> = 2 * read_uint bits"
    by (simp only: snoc.IH sum_distrib_left)
  finally have low: "(\<Sum>j<?n. if (bits @ [b]) ! j then 2 ^ (?n - j) else 0) = 2 * read_uint bits" .
  have "(\<Sum>j<length (bits @ [b]). if (bits @ [b]) ! j then 2 ^ (length (bits @ [b]) - 1 - j) else 0)
          = (\<Sum>j<Suc ?n. if (bits @ [b]) ! j then 2 ^ (?n - j) else (0::nat))"
    by (simp cong: if_cong)
  also have "\<dots> = (\<Sum>j<?n. if (bits @ [b]) ! j then 2 ^ (?n - j) else 0)
                      + (if b then 1 else 0)"
    by (simp only: sum.lessThan_Suc) simp
  finally show ?case
    by (simp only: low read_uint_snoc)
qed

lemma read_uint_group:
  assumes "6 * i + 6 \<le> length bs"
  shows "read_uint (take 6 (drop (6 * i) bs))
           = (\<Sum>j<6. if bs ! (6 * i + j) then 2 ^ (5 - j) else 0)"
proof -
  have len: "length (take 6 (drop (6 * i) bs)) = 6"
    using assms by simp
  have "read_uint (take 6 (drop (6 * i) bs))
          = (\<Sum>j<6. if take 6 (drop (6 * i) bs) ! j then 2 ^ (6 - 1 - j) else 0)"
    using read_uint_sum [of "take 6 (drop (6 * i) bs)"] by (simp only: len)
  also have "\<dots> = (\<Sum>j<6. if bs ! (6 * i + j) then 2 ^ (5 - j) else 0)"
  proof (rule sum.cong [OF refl])
    fix j :: nat assume "j \<in> {..<6}"
    then have "j < 6" by simp
    then show "(if take 6 (drop (6 * i) bs) ! j then 2 ^ (6 - 1 - j) else (0::nat))
                 = (if bs ! (6 * i + j) then 2 ^ (5 - j) else 0)"
      using assms by simp
  qed
  finally show ?thesis .
qed

lemma fill_bits_nat: "(6 - int n mod 6) mod 6 = int ((6 - n mod 6) mod 6)"
proof -
  have "n mod 6 < 6" by simp
  then show ?thesis
    by (simp add: of_nat_mod of_nat_diff)
qed

lemma fill_bits_pad: "(n + (6 - n mod 6) mod 6) mod 6 = (0::nat)"
proof -
  define r where "r = n mod 6"
  have r: "r < 6" by (simp add: r_def)
  have "(r + (6 - r) mod 6) mod 6 = 0"
  proof (cases "r = 0")
    case True
    then show ?thesis by simp
  next
    case False
    with r have "(6 - r) mod 6 = 6 - r" by simp
    with r show ?thesis by simp
  qed
  moreover have "(n + (6 - r) mod 6) mod 6 = (n mod 6 + (6 - r) mod 6) mod 6"
    by (simp only: mod_add_left_eq)
  ultimately show ?thesis
    by (simp only: r_def)
qed

lemma readlist_uint6_eq:
  "6 * n \<le> length bs \<Longrightarrow>
     readlist_uint6 n bs = Inr (map (\<lambda>i. read_uint (take 6 (drop (6 * i) bs))) [0..<n])"
proof (induction n arbitrary: bs)
  case 0
  then show ?case by simp
next
  case (Suc n)
  then have len: "\<not> length bs < 6" and rest: "6 * n \<le> length (drop 6 bs)"
    by simp_all
  have shift: "drop (6 * Suc i) bs = drop (6 * i) (drop 6 bs)" for i
    by (simp add: add.commute)
  have "readlist_uint6 (Suc n) bs
          = Inr (read_uint (take 6 bs)
                   # map (\<lambda>i. read_uint (take 6 (drop (6 * i) (drop 6 bs)))) [0..<n])"
    using len by (simp add: Suc.IH [OF rest] del: drop_drop)
  also have "map (\<lambda>i. read_uint (take 6 (drop (6 * i) (drop 6 bs)))) [0..<n]
               = map (\<lambda>i. read_uint (take 6 (drop (6 * i) bs))) (map Suc [0..<n])"
    by (simp only: map_map comp_def shift)
  finally show ?case
    by (simp only: upt_Suc_shift list.map) simp
qed

lemma iec_ascii_6b_to_8b_eq:
  "iec_ascii_6b_to_8b bs =
     Inr (map (\<lambda>i. let v = read_uint (take 6 (drop (6 * i) bs))
                     in if v < 40 then v + 48 else v + 56)
            [0..<length bs div 6])"
proof -
  have "6 * (length bs div 6) \<le> length bs"
    by simp
  then show ?thesis
    by (simp add: iec_ascii_6b_to_8b_def readlist_uint6_eq Let_def comp_def)
qed

lemma armor_eq:
  "armor bs =
     Inr (map (\<lambda>i. let v = read_uint (take 6 (drop (6 * i)
                               (bs @ replicate ((6 - length bs mod 6) mod 6) False)))
                     in if v < 40 then v + 48 else v + 56)
            [0..<(length bs + (6 - length bs mod 6) mod 6) div 6],
          int ((6 - length bs mod 6) mod 6))"
proof -
  have f: "(6 - int (length bs) mod 6) mod 6 = int ((6 - length bs mod 6) mod 6)"
    by (rule fill_bits_nat)
  show ?thesis
    unfolding armor_def
    by (simp only: Let_def f nat_int iec_ascii_6b_to_8b_eq sum.case prod.case
          length_append length_replicate)
qed

lemma armor_returns:
  "\<exists>payload. armor bs = Inr (payload, (6 - int (length bs) mod 6) mod 6)"
  by (simp only: armor_eq fill_bits_nat) blast

text \<open>
  C4. For a bit sequence of length \<open>n\<close>, armouring returns, with fill bit count
  \<open>(6 - n mod 6) mod 6\<close>; the padded length is a multiple of 6 and the payload has
  (\<open>n\<close> + fill bit count) / 6 characters; character \<open>i\<close> has the code \<open>v + 48\<close> if \<open>v < 40\<close> and
  \<open>v + 56\<close> otherwise, where \<open>v\<close> is the value of bits \<open>6 i\<close> to \<open>6 i + 5\<close> of the sequence
  padded with zero bits, the first of the six bits weighing 32 and the last 1.
\<close>

theorem armor_bits:
  "\<exists>payload.
      armor bs = Inr (payload, (6 - int (length bs) mod 6) mod 6)
      \<and> (int (length bs) + (6 - int (length bs) mod 6) mod 6) mod 6 = 0
      \<and> int (length payload) = (int (length bs) + (6 - int (length bs) mod 6) mod 6) div 6
      \<and> (\<forall>i<length payload.
            payload ! i =
              (let v = (\<Sum>j<6. if (bs @ replicate (nat ((6 - int (length bs) mod 6) mod 6)) False)
                                      ! (6 * i + j)
                                then 2 ^ (5 - j) else 0)
               in if v < 40 then v + 48 else v + 56))"
proof -
  define fill where "fill = (6 - length bs mod 6) mod 6"
  define padded where "padded = bs @ replicate fill False"
  define payload where
    "payload = map (\<lambda>i. let v = read_uint (take 6 (drop (6 * i) padded))
                            in if v < 40 then v + 48 else v + (56::nat))
                 [0..<(length bs + fill) div 6]"
  have f: "(6 - int (length bs) mod 6) mod 6 = int fill"
    unfolding fill_def by (rule fill_bits_nat)
  have pad: "(length bs + fill) mod 6 = 0"
    unfolding fill_def by (rule fill_bits_pad)
  have lp: "length padded = length bs + fill"
    by (simp add: padded_def)
  have a: "armor bs = Inr (payload, int fill)"
    unfolding payload_def padded_def fill_def by (rule armor_eq)
  have len: "length payload = (length bs + fill) div 6"
    by (simp add: payload_def)
  have m: "(int (length bs) + int fill) mod 6 = 0"
    using pad by (metis of_nat_add of_nat_mod of_nat_0 of_nat_numeral)
  have d: "int (length payload) = (int (length bs) + int fill) div 6"
    unfolding len by (metis of_nat_add of_nat_div of_nat_numeral)
  have c: "payload ! i =
              (let v = (\<Sum>j<6. if padded ! (6 * i + j) then 2 ^ (5 - j) else 0)
               in if v < 40 then v + 48 else v + 56)"
    if "i < length payload" for i
  proof -
    from that have i: "i < (length bs + fill) div 6"
      by (simp only: len)
    have "6 * ((length bs + fill) div 6) = length bs + fill"
      using pad by (metis mult_div_mod_eq add.right_neutral)
    with i have bound: "6 * i + 6 \<le> length padded"
      unfolding lp by linarith
    define v where "v = read_uint (take 6 (drop (6 * i) padded))"
    have vs: "v = (\<Sum>j<6. if padded ! (6 * i + j) then 2 ^ (5 - j) else 0)"
      unfolding v_def using bound by (rule read_uint_group)
    have "payload ! i = (if v < 40 then v + 48 else v + 56)"
      using i by (simp add: payload_def v_def Let_def)
    then show ?thesis
      by (simp only: vs Let_def)
  qed
  show ?thesis
    unfolding f nat_int
    using a m d c by (simp only: padded_def) blast
qed

theorem armor_bits_witness:
  "armor [True, False, False, False, False, False, True] = Inr ((lit ''PP''), 5)
   \<and> int (length (lit ''PP'')) = (7 + 5) div 6
   \<and> (1::nat) < length (lit ''PP'')
   \<and> (lit ''PP'') ! 1 = 32 + 48"
proof -
  let ?bs = "[True, False, False, False, False, False, True]"
  have e: "armor ?bs = Inr ((lit ''PP''), 5)"
    by code_simp
  from armor_bits [of ?bs] obtain payload where
    p: "armor ?bs = Inr (payload, (6 - int (length ?bs) mod 6) mod 6)" and
    c: "\<forall>i<length payload.
          payload ! i =
            (let v = (\<Sum>j<6. if (?bs @ replicate (nat ((6 - int (length ?bs) mod 6) mod 6)) False)
                                    ! (6 * i + j)
                              then 2 ^ (5 - j) else 0)
             in if v < 40 then v + 48 else v + 56)"
    by blast
  from p e have pp: "payload = lit ''PP''"
    by simp
  have one: "(1::nat) < length (lit ''PP'')"
    by (simp add: lit_simps)
  have "{..<6::nat} = {0, 1, 2, 3, 4, 5}"
    by auto
  with c [unfolded pp, rule_format, OF one]
  have "(lit ''PP'') ! 1 = 32 + 48"
    by (simp add: nth_append nth_Cons' lit_simps)
  with e one show ?thesis
    by (simp add: lit_simps)
qed

lemma length_armor:
  "armor bs = Inr (payload, n_fill_bits) \<Longrightarrow>
     length payload = (length bs + (6 - length bs mod 6) mod 6) div 6"
  by (simp add: armor_eq) auto

subsection \<open>Sentence generation\<close>

text \<open>
  C8. Encoding a payload into BBM sentences or into VDM sentences returns, and every
  sentence of the result, whatever their number, carries the same fill bit count, the one
  computed from the length of the payload.
\<close>

theorem same_fill_bits:
  "(\<exists>ss. asm_payload_bs_to_bbm_sentences bs sequential_id channel msg_id talker_id = Inr ss
         \<and> (\<forall>s\<in>set ss. bbm_n_fill_bits s = (6 - int (length bs) mod 6) mod 6))
   \<and> (\<exists>ss. ais_msg_bs_to_vdm_sentences bs sequential_id channel' talker_id = Inr ss
         \<and> (\<forall>s\<in>set ss. vdm_n_fill_bits s = (6 - int (length bs) mod 6) mod 6))"
proof -
  obtain payload where a: "armor bs = Inr (payload, (6 - int (length bs) mod 6) mod 6)"
    using armor_returns by blast
  have "asm_payload_bs_to_bbm_sentences bs sequential_id channel msg_id talker_id
          = Inr (bbm_split payload sequential_id channel msg_id
                   ((6 - int (length bs) mod 6) mod 6) talker_id)"
    by (simp add: asm_payload_bs_to_bbm_sentences_def a)
  moreover have "\<forall>s\<in>set (bbm_split payload sequential_id channel msg_id
                   ((6 - int (length bs) mod 6) mod 6) talker_id).
                    bbm_n_fill_bits s = (6 - int (length bs) mod 6) mod 6"
    by (auto simp add: bbm_split_eq)
  moreover have "ais_msg_bs_to_vdm_sentences bs sequential_id channel' talker_id
          = Inr (vdm_split payload sequential_id channel'
                   ((6 - int (length bs) mod 6) mod 6) talker_id)"
    by (simp add: ais_msg_bs_to_vdm_sentences_def a)
  moreover have "\<forall>s\<in>set (vdm_split payload sequential_id channel'
                   ((6 - int (length bs) mod 6) mod 6) talker_id).
                    vdm_n_fill_bits s = (6 - int (length bs) mod 6) mod 6"
    by (auto simp add: vdm_split_eq)
  ultimately show ?thesis
    by blast
qed

theorem same_fill_bits_witness:
  "(\<exists>ss. asm_payload_bs_to_bbm_sentences (replicate 400 True) 0 1 8 (lit ''AI'') = Inr ss
         \<and> map bbm_n_fill_bits ss = [2, 2])
   \<and> (\<exists>ss. ais_msg_bs_to_vdm_sentences (replicate 400 True) 0 (lit ''A'') (lit ''AI'') = Inr ss
         \<and> map vdm_n_fill_bits ss = [2, 2])"
proof -
  obtain payload n_fill_bits where a: "armor (replicate 400 True) = Inr (payload, n_fill_bits)"
    using armor_returns by blast
  have l: "length payload = 67"
    using length_armor [OF a] by simp
  have lb: "length (bbm_split payload 0 1 8 n_fill_bits (lit ''AI'')) = 2"
    by (simp add: bbm_split_eq l)
  have lv: "length (vdm_split payload 0 (lit ''A'') n_fill_bits (lit ''AI'')) = 2"
    by (simp add: vdm_split_eq l)
  have two: "map f xs = [f (xs ! 0), f (xs ! 1)]" if "length xs = 2" for f :: "'a \<Rightarrow> int" and xs
    using that by (cases xs; cases "tl xs") auto
  from same_fill_bits [of "replicate 400 True" 0 1 8 "(lit ''AI'')" "(lit ''A'')"]
  show ?thesis
    by (simp add: asm_payload_bs_to_bbm_sentences_def ais_msg_bs_to_vdm_sentences_def a
          two [OF lb] two [OF lv] lb lv)
qed

text \<open>
  C1. A call of \<^verbatim>\<open>generate_bbm\<close> returns one group. Every sentence of the group carries
  the value \<^verbatim>\<open>bbm_sequential_id\<close> had before the call. After the call the counter is
  (old value + 1) mod 10 if the group has more than one sentence, and the old value if it
  has exactly one.
\<close>

theorem generate_bbm_sequential_id:
  "\<exists>bbm_sentences self'.
      generate_bbm self asm_payload_bs channel msg_id = Inr ([bbm_sentences], self')
      \<and> (\<forall>s\<in>set bbm_sentences. bbm_sequential_id s = sg_bbm_sequential_id self)
      \<and> (length bbm_sentences > 1 \<longrightarrow>
            sg_bbm_sequential_id self' = (sg_bbm_sequential_id self + 1) mod 10)
      \<and> (length bbm_sentences = 1 \<longrightarrow>
            sg_bbm_sequential_id self' = sg_bbm_sequential_id self)"
proof -
  obtain payload n_fill_bits where a: "armor asm_payload_bs = Inr (payload, n_fill_bits)"
    using armor_returns by blast
  define ss where "ss = bbm_split payload (sg_bbm_sequential_id self) channel msg_id
                          n_fill_bits (sg_talker_id self)"
  have s: "asm_payload_bs_to_bbm_sentences asm_payload_bs (sg_bbm_sequential_id self) channel
             msg_id (sg_talker_id self) = Inr ss"
    by (simp add: asm_payload_bs_to_bbm_sentences_def a ss_def)
  have ids: "\<forall>s\<in>set ss. bbm_sequential_id s = sg_bbm_sequential_id self"
    by (auto simp add: ss_def bbm_split_eq)
  show ?thesis
  proof (cases "length ss > 1")
    case True
    then have "generate_bbm self asm_payload_bs channel msg_id
                 = Inr ([ss], self\<lparr>sg_bbm_sequential_id := (sg_bbm_sequential_id self + 1) mod 10\<rparr>)"
      by (simp add: generate_bbm_def s)
    with ids True show ?thesis
      by (intro exI [of _ ss]
            exI [of _ "self\<lparr>sg_bbm_sequential_id := (sg_bbm_sequential_id self + 1) mod 10\<rparr>"])
        simp
  next
    case False
    then have "generate_bbm self asm_payload_bs channel msg_id = Inr ([ss], self)"
      by (simp add: generate_bbm_def s)
    with ids False show ?thesis
      by (intro exI [of _ ss] exI [of _ self]) simp
  qed
qed

theorem generate_bbm_sequential_id_witness:
  "(\<exists>ss self'.
      generate_bbm \<lparr>sg_talker_id = lit ''AI'', sg_vdm_sequential_id = 0, sg_bbm_sequential_id = 9\<rparr>
        (replicate 400 True) 1 8 = Inr ([ss], self')
      \<and> map bbm_sequential_id ss = [9, 9] \<and> sg_bbm_sequential_id self' = 0)
   \<and> (\<exists>ss self'.
      generate_bbm \<lparr>sg_talker_id = lit ''AI'', sg_vdm_sequential_id = 0, sg_bbm_sequential_id = 9\<rparr>
        (replicate 7 True) 1 8 = Inr ([ss], self')
      \<and> map bbm_sequential_id ss = [9] \<and> sg_bbm_sequential_id self' = 9)"
proof -
  let ?sg = "\<lparr>sg_talker_id = lit ''AI'', sg_vdm_sequential_id = 0, sg_bbm_sequential_id = 9\<rparr>"
  obtain p1 f1 where a1: "armor (replicate 400 True) = Inr (p1, f1)"
    using armor_returns by blast
  obtain p2 f2 where a2: "armor (replicate 7 True) = Inr (p2, f2)"
    using armor_returns by blast
  have l1: "length p1 = 67"
    using length_armor [OF a1] by simp
  have l2: "length p2 = 2"
    using length_armor [OF a2] by simp
  have n1: "length (bbm_split p1 9 1 8 f1 (lit ''AI'')) = 2"
    by (simp add: bbm_split_eq l1)
  have n2: "length (bbm_split p2 9 1 8 f2 (lit ''AI'')) = 1"
    by (simp add: bbm_split_eq l2)
  have two: "map f xs = [f (xs ! 0), f (xs ! 1)]" if "length xs = 2" for f :: "'a \<Rightarrow> int" and xs
    using that by (cases xs; cases "tl xs") auto
  have one: "map f xs = [f (xs ! 0)]" if "length xs = 1" for f :: "'a \<Rightarrow> int" and xs
    using that by (cases xs) auto
  from generate_bbm_sequential_id [of ?sg "replicate 400 True" 1 8]
  have first: "\<exists>ss self'. generate_bbm ?sg (replicate 400 True) 1 8 = Inr ([ss], self')
      \<and> map bbm_sequential_id ss = [9, 9] \<and> sg_bbm_sequential_id self' = 0"
    by (simp add: generate_bbm_def asm_payload_bs_to_bbm_sentences_def a1 n1 two [OF n1])
  from generate_bbm_sequential_id [of ?sg "replicate 7 True" 1 8]
  have second: "\<exists>ss self'. generate_bbm ?sg (replicate 7 True) 1 8 = Inr ([ss], self')
      \<and> map bbm_sequential_id ss = [9] \<and> sg_bbm_sequential_id self' = 9"
    by (simp add: generate_bbm_def asm_payload_bs_to_bbm_sentences_def a2 n2 one [OF n2])
  from first second show ?thesis
    by (rule conjI)
qed

subsection \<open>The sentence string\<close>












subsection \<open>Message generation\<close>

lemma generate_msg_group_eq:
  "generate_msg_group self n_sentences group' i_sentence messages =
     messages @ map (\<lambda>k. \<lparr>msg_i_sentence = i_sentence + int k,
                            msg_n_sentences = n_sentences,
                            msg_group_id = mg_group_id self,
                            msg_source_id = mg_source_id self,
                            msg_sentence = group' ! k\<rparr>)
                 [0..<length group']"
proof (induction group' arbitrary: i_sentence messages)
  case Nil
  then show ?case by simp
next
  case (Cons sentence rest)
  show ?case
    by (simp only: generate_msg_group.simps Let_def Cons.IH length_Cons upt_Suc_shift)
       (simp add: comp_def add.assoc)
qed

lemma generate_msg_groups_Cons:
  "generate_msg_groups self (group' # rest) messages =
     generate_msg_groups (self\<lparr>mg_group_id := next_group_id (mg_group_id self)\<rparr>) rest
       (messages @ map (\<lambda>i. \<lparr>msg_i_sentence = 1 + int i,
                                msg_n_sentences = int (length group'),
                                msg_group_id = next_group_id (mg_group_id self),
                                msg_source_id = mg_source_id self,
                                msg_sentence = group' ! i\<rparr>)
                     [0..<length group'])"
  by (simp add: Let_def next_group_id_def generate_msg_group_eq)

lemma generate_msg_groups_eq:
  "generate_msg_groups self groups messages =
     (messages @ concat (map (\<lambda>k. map (\<lambda>i. \<lparr>msg_i_sentence = 1 + int i,
                                   msg_n_sentences = int (length (groups ! k)),
                                   msg_group_id = (next_group_id ^^ Suc k) (mg_group_id self),
                                   msg_source_id = mg_source_id self,
                                   msg_sentence = groups ! k ! i\<rparr>)
                                [0..<length (groups ! k)])
                         [0..<length groups]),
      self\<lparr>mg_group_id := (next_group_id ^^ length groups) (mg_group_id self)\<rparr>)"
proof (induction groups arbitrary: self messages)
  case Nil
  then show ?case by simp
next
  case (Cons group' rest)
  show ?case
    by (simp only: generate_msg_groups_Cons Cons.IH length_Cons upt_Suc_shift)
       (simp add: comp_def funpow_swap1)
qed

lemma next_group_id_funpow:
  "(next_group_id ^^ Suc k) 0 = int (k mod 99) + 1"
proof (induction k)
  case 0
  then show ?case by (simp add: next_group_id_def)
next
  case (Suc k)
  have "(next_group_id ^^ Suc (Suc k)) 0 = next_group_id (int (k mod 99) + 1)"
    using Suc by simp
  also have "\<dots> = int (Suc k mod 99) + 1"
  proof -
    have "k mod 99 < 99" by simp
    then show ?thesis
      by (simp add: next_group_id_def mod_Suc) linarith
  qed
  finally show ?case .
qed


lemma next_group_id_funpow_0:
  "(next_group_id ^^ n) 0 = (if n = 0 then 0 else int ((n - 1) mod 99) + 1)"
proof (cases n)
  case 0
  then show ?thesis by simp
next
  case (Suc k)
  then show ?thesis by (simp only: next_group_id_funpow) simp
qed

lemma generate_msg_eq:
  "generate_msg self groups =
     (concat (map (\<lambda>k. map (\<lambda>i. \<lparr>msg_i_sentence = 1 + int i,
                                   msg_n_sentences = int (length (groups ! k)),
                                   msg_group_id = (next_group_id ^^ Suc k) (mg_group_id self),
                                   msg_source_id = mg_source_id self,
                                   msg_sentence = groups ! k ! i\<rparr>)
                                [0..<length (groups ! k)])
                         [0..<length groups]),
      self\<lparr>mg_group_id := (next_group_id ^^ length groups) (mg_group_id self)\<rparr>)"
  by (simp only: generate_msg_def generate_msg_groups_eq append_Nil)

lemma generate_msg_calls_eq:
  "generate_msg_calls self calls =
     (map (\<lambda>j. fst (generate_msg
                       (self\<lparr>mg_group_id :=
                          (next_group_id ^^ length (concat (take j calls))) (mg_group_id self)\<rparr>)
                       (calls ! j)))
        [0..<length calls],
      self\<lparr>mg_group_id := (next_group_id ^^ length (concat calls)) (mg_group_id self)\<rparr>)"
proof (induction calls arbitrary: self)
  case Nil
  then show ?case by simp
next
  case (Cons sentences calls)
  have step: "generate_msg self sentences =
                (fst (generate_msg self sentences),
                 self\<lparr>mg_group_id := (next_group_id ^^ length sentences) (mg_group_id self)\<rparr>)"
    by (simp add: generate_msg_eq)
  have pow: "(next_group_id ^^ n) ((next_group_id ^^ length sentences) g)
               = (next_group_id ^^ (length sentences + n)) g" for n g
    by (simp add: funpow_add add.commute)
  show ?case
    apply (subst generate_msg_calls.simps)
    apply (subst step)
    apply (simp only: Let_def prod.case Cons.IH length_Cons upt_Suc_shift list.map map_map
             comp_def)
    apply (simp add: pow)
    done
qed

text \<open>
  C2. For every sequence of \<^verbatim>\<open>generate_msg\<close> calls on a freshly constructed generator:
  call \<open>j\<close> returns, for each of its groups in order, one message per sentence, numbered from
  1, with the size of the group, the source id of the generator and one group id for the
  whole group. That group id is \<open>(g mod 99) + 1\<close> where \<open>g\<close> counts the groups processed
  before this one, in this call and in the earlier ones: the first group ever gets 1, the
  counter advances once per group whatever the size of the group, and after 99 comes 1.
  So every message carries a group id from 1 to 99. After the calls the counter is the id
  of the last group (0 if there was no group at all).
\<close>

theorem generate_msg_group_ids:
  "length (fst (generate_msg_calls (MessageGenerator_init source_id) calls)) = length calls
   \<and> (\<forall>j<length calls.
         fst (generate_msg_calls (MessageGenerator_init source_id) calls) ! j =
           concat (map (\<lambda>k. map (\<lambda>i.
                     \<lparr>msg_i_sentence = 1 + int i,
                      msg_n_sentences = int (length (calls ! j ! k)),
                      msg_group_id = int ((length (concat (take j calls)) + k) mod 99) + 1,
                      msg_source_id = source_id,
                      msg_sentence = calls ! j ! k ! i\<rparr>)
                    [0..<length (calls ! j ! k)])
                  [0..<length (calls ! j)]))
   \<and> (\<forall>m\<in>set (concat (fst (generate_msg_calls (MessageGenerator_init source_id) calls))).
         1 \<le> msg_group_id m \<and> msg_group_id m \<le> 99)
   \<and> mg_group_id (snd (generate_msg_calls (MessageGenerator_init source_id) calls)) =
        (if concat calls = [] then 0 else int ((length (concat calls) - 1) mod 99) + 1)"
proof -
  let ?R = "generate_msg_calls (MessageGenerator_init source_id) calls"
  have len: "length (fst ?R) = length calls"
    by (simp add: generate_msg_calls_eq)
  have pow: "(next_group_id ^^ Suc k) ((next_group_id ^^ n) 0) = int ((n + k) mod 99) + 1" for k n
  proof -
    have "(next_group_id ^^ Suc k) ((next_group_id ^^ n) 0) = (next_group_id ^^ Suc (n + k)) 0"
      by (simp add: funpow_add add.commute del: funpow.simps)
         (metis add_Suc comp_apply funpow_add add.commute)
    then show ?thesis
      by (simp only: next_group_id_funpow)
  qed
  have nth: "fst ?R ! j =
           concat (map (\<lambda>k. map (\<lambda>i.
                     \<lparr>msg_i_sentence = 1 + int i,
                      msg_n_sentences = int (length (calls ! j ! k)),
                      msg_group_id = int ((length (concat (take j calls)) + k) mod 99) + 1,
                      msg_source_id = source_id,
                      msg_sentence = calls ! j ! k ! i\<rparr>)
                    [0..<length (calls ! j ! k)])
                  [0..<length (calls ! j)])"
    if "j < length calls" for j
    using that
    by (simp add: generate_msg_calls_eq generate_msg_eq MessageGenerator_init_def pow
          del: funpow.simps)
  have range: "1 \<le> msg_group_id m \<and> msg_group_id m \<le> 99"
    if "m \<in> set (concat (fst ?R))" for m
  proof -
    from that obtain ms where "ms \<in> set (fst ?R)" and m: "m \<in> set ms"
      by auto
    then obtain j where j: "j < length calls" and "ms = fst ?R ! j"
      by (metis in_set_conv_nth len)
    with m nth [OF j] obtain x :: nat where "msg_group_id m = int (x mod 99) + 1"
      by auto
    moreover have "x mod 99 < 99" by simp
    ultimately show ?thesis by linarith
  qed
  have final: "mg_group_id (snd ?R) =
        (if concat calls = [] then 0 else int ((length (concat calls) - 1) mod 99) + 1)"
    by (simp add: generate_msg_calls_eq MessageGenerator_init_def next_group_id_funpow_0
          del: funpow.simps)
  from len nth range final show ?thesis
    by blast
qed

theorem generate_msg_group_ids_witness:
  "generate_msg_calls (MessageGenerator_init (lit ''GR0001'')) [[[1::nat, 2], []], [[3]]] =
     ([[\<lparr>msg_i_sentence = 1, msg_n_sentences = 2, msg_group_id = 1,
          msg_source_id = lit ''GR0001'', msg_sentence = 1\<rparr>,
        \<lparr>msg_i_sentence = 2, msg_n_sentences = 2, msg_group_id = 1,
          msg_source_id = lit ''GR0001'', msg_sentence = 2\<rparr>],
       [\<lparr>msg_i_sentence = 1, msg_n_sentences = 1, msg_group_id = 3,
          msg_source_id = lit ''GR0001'', msg_sentence = 3\<rparr>]],
      \<lparr>mg_source_id = lit ''GR0001'', mg_group_id = 3\<rparr>)"
proof -
  have e: "generate_msg_calls (MessageGenerator_init (lit ''GR0001'')) [[[1::nat, 2], []], [[3]]] =
     ([[\<lparr>msg_i_sentence = 1, msg_n_sentences = 2, msg_group_id = 1,
          msg_source_id = lit ''GR0001'', msg_sentence = 1\<rparr>,
        \<lparr>msg_i_sentence = 2, msg_n_sentences = 2, msg_group_id = 1,
          msg_source_id = lit ''GR0001'', msg_sentence = 2\<rparr>],
       [\<lparr>msg_i_sentence = 1, msg_n_sentences = 1, msg_group_id = 3,
          msg_source_id = lit ''GR0001'', msg_sentence = 3\<rparr>]],
      \<lparr>mg_source_id = lit ''GR0001'', mg_group_id = 3\<rparr>)"
    by (simp add: generate_msg_def MessageGenerator_init_def)
  show ?thesis
    using generate_msg_group_ids [of "(lit ''GR0001'')" "[[[1::nat, 2], []], [[3]]]"]
    by (simp only: e)
qed

lemma generate_msg_groups_acc:
  "generate_msg_groups self groups messages =
     (messages @ fst (generate_msg self groups), snd (generate_msg self groups))"
  by (simp only: generate_msg_groups_eq generate_msg_eq fst_conv snd_conv)

lemma generate_msg_groups_append:
  "generate_msg_groups self (xs @ ys) messages =
     (case generate_msg_groups self xs messages of
        (m1, self1) \<Rightarrow> generate_msg_groups self1 ys m1)"
proof (induction xs arbitrary: self messages)
  case Nil
  then show ?case by simp
next
  case (Cons x xs)
  show ?case
    by (simp only: append_Cons generate_msg_groups_Cons Cons.IH)
qed

text \<open>
  C10. A call of \<^verbatim>\<open>generate_msg\<close> whose input holds an empty group gives the messages of
  the groups before it, then those of the groups after it as produced by a generator
  whose counter has advanced once more: the empty group adds no message and still
  advances the counter (once, to a different value). In particular \<^verbatim>\<open>generate_msg\<close> on the
  single empty group returns no message and advances the counter, and \<^verbatim>\<open>generate_bbm\<close> on
  the bit stream of length zero returns exactly that single empty group, leaving the
  sentence generator as it was.
\<close>

theorem empty_group_consumes_id:
  "generate_msg self (pre @ [] # post) =
     (let (m1, self1) = generate_msg self pre;
          (m2, self2) = generate_msg
                          (self1\<lparr>mg_group_id := if mg_group_id self1 + 1 > 99 then 1
                                                  else mg_group_id self1 + 1\<rparr>) post
      in (m1 @ m2, self2))
   \<and> generate_msg self [[]] =
       ([], self\<lparr>mg_group_id := if mg_group_id self + 1 > 99 then 1 else mg_group_id self + 1\<rparr>)
   \<and> (if mg_group_id self + 1 > 99 then 1 else mg_group_id self + 1) \<noteq> mg_group_id self
   \<and> generate_bbm sg [] channel msg_id = Inr ([[]], sg)"
proof (intro conjI)
  show "generate_msg self (pre @ [] # post) =
     (let (m1, self1) = generate_msg self pre;
          (m2, self2) = generate_msg
                          (self1\<lparr>mg_group_id := if mg_group_id self1 + 1 > 99 then 1
                                                  else mg_group_id self1 + 1\<rparr>) post
      in (m1 @ m2, self2))"
  proof -
    obtain m1 self1 where p: "generate_msg self pre = (m1, self1)"
      by (cases "generate_msg self pre")
    then have "generate_msg_groups self pre [] = (m1, self1)"
      by (simp add: generate_msg_def)
    then have "generate_msg self (pre @ [] # post) =
                 generate_msg_groups
                   (self1\<lparr>mg_group_id := next_group_id (mg_group_id self1)\<rparr>) post m1"
      by (simp only: generate_msg_def generate_msg_groups_append prod.case
            generate_msg_groups_Cons) simp
    also have "\<dots> = (m1 @ fst (generate_msg
                                 (self1\<lparr>mg_group_id := next_group_id (mg_group_id self1)\<rparr>) post),
                      snd (generate_msg
                             (self1\<lparr>mg_group_id := next_group_id (mg_group_id self1)\<rparr>) post))"
      by (rule generate_msg_groups_acc)
    finally show ?thesis
      by (simp add: p next_group_id_def case_prod_beta)
  qed
next
  show "generate_msg self [[]] =
       ([], self\<lparr>mg_group_id := if mg_group_id self + 1 > 99 then 1 else mg_group_id self + 1\<rparr>)"
    by (simp add: generate_msg_def)
next
  show "(if mg_group_id self + 1 > 99 then 1 else mg_group_id self + 1) \<noteq> mg_group_id self"
    by simp
next
  have "armor [] = Inr ([], 0)"
    by (simp add: armor_eq)
  then show "generate_bbm sg [] channel msg_id = Inr ([[]], sg)"
    by (simp add: generate_bbm_def asm_payload_bs_to_bbm_sentences_def bbm_split_eq)
qed

subsection \<open>The sample data\<close>

lemma length_asm_payload_bs_sample: "length asm_payload_bs_sample = 900"
  by code_simp

lemma sample_armor:
  "\<exists>payload. armor asm_payload_bs_sample = Inr (payload, 0) \<and> length payload = 150"
proof -
  obtain payload where a: "armor asm_payload_bs_sample
      = Inr (payload, (6 - int (length asm_payload_bs_sample) mod 6) mod 6)"
    using armor_returns by blast
  have "length payload = 150"
    using length_armor [OF a] by (simp add: length_asm_payload_bs_sample)
  with a show ?thesis
    by (simp add: length_asm_payload_bs_sample)
qed

lemma sample_lengths:
  assumes "length payload = 150"
  shows "map (\<lambda>s. length (bbm_payload s))
           (bbm_split payload sequential_id channel msg_id n_fill_bits talker_id) = [57, 57, 36]"
proof -
  have "map (\<lambda>s. length (bbm_payload s))
           (bbm_split payload sequential_id channel msg_id n_fill_bits talker_id)
          = map length (map bbm_payload
              (bbm_split payload sequential_id channel msg_id n_fill_bits talker_id))"
    by (simp add: comp_def)
  also have "\<dots> = map (\<lambda>k. length (slice payload (k * 57) (k * 57 + 57))) [0..<3]"
    by (simp add: bbm_split_payloads assms comp_def)
  also have "[0..<3] = [0, 1, 2]"
    by (simp add: upt_rec)
  finally show ?thesis
    by (simp add: slice_def assms)
qed

text \<open>
  C7. The claim: armouring the sample data, said to be 960 bits, gives 0 fill bits and 160
  characters, split into sentences of 57, 57 and 46 characters. The literal has 15
  hexadecimal digits, so fifteen of them are 225 digits, 900 bits. As amended: the sample
  data is 900 bits long; armouring it gives 0 fill bits and a payload of 150 characters;
  the BBM sentences made from it are three, with payloads of 57, 57 and 36 characters,
  which concatenated are the payload.
\<close>

theorem sample_data_fragments:
  "length asm_payload_bs_sample = 900
   \<and> (\<exists>payload ss.
         armor asm_payload_bs_sample = Inr (payload, 0)
         \<and> length payload = 150
         \<and> asm_payload_bs_to_bbm_sentences asm_payload_bs_sample 0 1 8 (lit ''AI'') = Inr ss
         \<and> map (\<lambda>s. length (bbm_payload s)) ss = [57, 57, 36]
         \<and> concat (map bbm_payload ss) = payload)"
proof -
  obtain payload where a: "armor asm_payload_bs_sample = Inr (payload, 0)"
    and l: "length payload = 150"
    using sample_armor by blast
  have "asm_payload_bs_to_bbm_sentences asm_payload_bs_sample 0 1 8 (lit ''AI'')
          = Inr (bbm_split payload 0 1 8 0 (lit ''AI''))"
    by (simp add: asm_payload_bs_to_bbm_sentences_def a)
  with a l sample_lengths [OF l] concat_bbm_split length_asm_payload_bs_sample
  show ?thesis
    by blast
qed

text \<open>
  The claim as stated fails on the sample data: it is not 960 bits long, its payload is
  not 160 characters long and the payloads of its sentences are not 57, 57 and 46
  characters long.
\<close>

theorem sample_data_counterexample:
  "length asm_payload_bs_sample \<noteq> 960
   \<and> map_sum id (\<lambda>r. (length (fst r), snd r)) (armor asm_payload_bs_sample) \<noteq> Inr (160, 0)
   \<and> map_sum id (map (\<lambda>s. length (bbm_payload s)))
        (asm_payload_bs_to_bbm_sentences asm_payload_bs_sample 0 1 8 (lit ''AI''))
       \<noteq> Inr [57, 57, 46]"
proof -
  obtain payload where a: "armor asm_payload_bs_sample = Inr (payload, 0)"
    and l: "length payload = 150"
    using sample_armor by blast
  have s: "asm_payload_bs_to_bbm_sentences asm_payload_bs_sample 0 1 8 (lit ''AI'')
          = Inr (bbm_split payload 0 1 8 0 (lit ''AI''))"
    by (simp add: asm_payload_bs_to_bbm_sentences_def a)
  show ?thesis
    by (simp add: length_asm_payload_bs_sample a l s sample_lengths [OF l])
qed

text \<open>
  A stream that really has 960 bits gives the numbers of the claim: 160 characters and
  sentences of 57, 57 and 46 characters.
\<close>

lemma bits_960_fragments:
  assumes "length bs = 960"
  shows "\<exists>payload ss.
           armor bs = Inr (payload, 0) \<and> length payload = 160
           \<and> asm_payload_bs_to_bbm_sentences bs sequential_id channel msg_id talker_id = Inr ss
           \<and> map (\<lambda>s. length (bbm_payload s)) ss = [57, 57, 46]"
proof -
  obtain payload where a: "armor bs = Inr (payload, (6 - int (length bs) mod 6) mod 6)"
    using armor_returns by blast
  have l: "length payload = 160"
    using length_armor [OF a] by (simp add: assms)
  have a0: "armor bs = Inr (payload, 0)"
    using a by (simp add: assms)
  have s: "asm_payload_bs_to_bbm_sentences bs sequential_id channel msg_id talker_id
          = Inr (bbm_split payload sequential_id channel msg_id 0 talker_id)"
    by (simp add: asm_payload_bs_to_bbm_sentences_def a0)
  have "map (\<lambda>s. length (bbm_payload s))
           (bbm_split payload sequential_id channel msg_id 0 talker_id)
          = map length (map bbm_payload
              (bbm_split payload sequential_id channel msg_id 0 talker_id))"
    by (simp add: comp_def)
  also have "\<dots> = map (\<lambda>k. length (slice payload (k * 57) (k * 57 + 57))) [0..<3]"
    by (simp add: bbm_split_payloads l comp_def)
  also have "[0..<3] = [0, 1, 2]"
    by (simp add: upt_rec)
  finally have "map (\<lambda>s. length (bbm_payload s))
           (bbm_split payload sequential_id channel msg_id 0 talker_id) = [57, 57, 46]"
    by (simp add: slice_def l)
  with a0 l s show ?thesis
    by (intro exI [of _ payload]
          exI [of _ "bbm_split payload sequential_id channel msg_id 0 talker_id"]) simp
qed

end
